theory Spec2Isabelle
  imports Main
begin

section \<open>JSON values as the JavaScript code sees them\<close>

text \<open>
  The results of \<open>lspClient.request\<close> are untyped JSON at run time. The source tests them
  with \<open>!x\<close>, \<open>Array.isArray(x)\<close>, \<open>x.length\<close>, \<open>x[0]\<close> and \<open>x || []\<close>; each of these
  operators is a function below. Numbers only matter through being zero or not.
\<close>

datatype json =
    JNull
  | JBool bool
  | JNum int
  | JStr string
  | JArr "json list"
  | JObj "(string \<times> json) list"

fun truthy :: "json \<Rightarrow> bool" where
  "truthy JNull = False"
| "truthy (JBool b) = b"
| "truthy (JNum n) = (n \<noteq> 0)"
| "truthy (JStr s) = (s \<noteq> [])"
| "truthy (JArr xs) = True"
| "truthy (JObj kvs) = True"

fun isArray :: "json \<Rightarrow> bool" where
  "isArray (JArr xs) = True"
| "isArray v = False"

fun elems :: "json \<Rightarrow> json list" where
  "elems (JArr xs) = xs"
| "elems v = []"

definition or_js :: "json \<Rightarrow> json \<Rightarrow> json" where
  \<comment> \<open>JavaScript \<open>a || b\<close>\<close>
  "or_js a b = (if truthy a then a else b)"

section \<open>The LSP client as the hierarchy helper uses it\<close>

text \<open>
  What a promise can be rejected with: an error response of the server, a failure of the
  transport, the \<open>TimeoutError\<close> of utils/errors, or any other exception.
\<close>

datatype failure =
    RemoteError int string
  | TransportError string
  | TimeoutError string
  | OtherError string

type_synonym rpc_request = "string \<times> json"

text \<open>
  \<open>lspClient.request(method, params)\<close> writes a request and later resolves with the result
  or rejects. The client numbers its requests 1, 2, 3, ...; \<open>answer\<close> is the outcome the
  server eventually gives to the request with a given number and content, and \<open>sent\<close> is
  everything written so far.
\<close>

record lsp_client =
  sent :: "rpc_request list"
  answer :: "nat \<Rightarrow> rpc_request \<Rightarrow> failure + json"

definition request :: "lsp_client \<Rightarrow> string \<Rightarrow> json \<Rightarrow> (failure + json) \<times> lsp_client" where
  "request cl method params =
     (answer cl (Suc (length (sent cl))) (method, params),
      cl\<lparr>sent := sent cl @ [(method, params)]\<rparr>)"

section \<open>The two-phase hierarchy fetch (src/utils/hierarchy-helper.ts)\<close>

record position =
  line :: int
  character :: int

record hierarchy_result =
  item :: json
  incoming :: json
  outgoing :: json

definition prepareParams :: "string \<Rightarrow> position \<Rightarrow> json" where
  \<comment> \<open>\<open>{ textDocument: { uri }, position }\<close>\<close>
  "prepareParams uri pos =
     JObj [(''textDocument'', JObj [(''uri'', JStr uri)]),
           (''position'', JObj [(''line'', JNum (line pos)), (''character'', JNum (character pos))])]"

definition itemParams :: "json \<Rightarrow> json" where
  \<comment> \<open>\<open>{ item }\<close>\<close>
  "itemParams it = JObj [(''item'', it)]"

definition catch_null :: "failure + json \<Rightarrow> json" where
  \<comment> \<open>\<open>.catch(error => { logger.warn(...); return null; })\<close>\<close>
  "catch_null r = (case r of Inl e \<Rightarrow> JNull | Inr v \<Rightarrow> v)"

definition fetchTwoPhaseHierarchy ::
  "lsp_client \<Rightarrow> string \<Rightarrow> string \<Rightarrow> string \<Rightarrow> string \<Rightarrow> position
     \<Rightarrow> (failure + hierarchy_result option) \<times> lsp_client" where
  "fetchTwoPhaseHierarchy lspClient prepareMethod incomingMethod outgoingMethod uri pos =
     (case request lspClient prepareMethod (prepareParams uri pos) of
        (Inl e, cl1) \<Rightarrow> (Inl e, cl1)
      | (Inr items, cl1) \<Rightarrow>
          if \<not> truthy items \<or> (isArray items \<and> length (elems items) = 0)
          then (Inr None, cl1)
          else
            let it = (if isArray items then elems items ! 0 else items);
                (r_in, cl2) = request cl1 incomingMethod (itemParams it);
                (r_out, cl3) = request cl2 outgoingMethod (itemParams it);
                inc = catch_null r_in;
                out = catch_null r_out
            in (Inr (Some \<lparr>item = it,
                            incoming = or_js inc (JArr []),
                            outgoing = or_js out (JArr [])\<rparr>), cl3))"

section \<open>The diagnostics cache (src/tools/get-diagnostics.ts, class DiagnosticsCache)\<close>

text \<open>
  Every call of \<open>getDiagnostics\<close> returns a promise; the calls are numbered in the order
  they are made, and the resolve function that \<open>waitForDiagnostics\<close> stores in
  \<open>pendingWaits\<close> is identified by the number of the call it belongs to.
  \<^item> \<open>cache\<close> and \<open>pendingWaits\<close> are the two private maps of the class;
  \<^item> \<open>waiting c\<close> holds the \<open>uri\<close> and \<open>timeoutMs\<close> of call \<open>c\<close> while it is suspended in
    \<open>waitForDiagnostics\<close> (the closure of its \<open>catch\<close> block);
  \<^item> \<open>outcome c\<close> is what the promise of call \<open>c\<close> settled with, \<open>None\<close> while it is
    pending;
  \<^item> \<open>lspClient\<close> is the client handed to the constructor.
  JavaScript runs each of the operations below to completion before the next one starts,
  so each is one function on the state.
\<close>

type_synonym diagnostic = json

record diagnostics_cache =
  cache :: "string \<rightharpoonup> diagnostic list"
  pendingWaits :: "string \<rightharpoonup> nat list"
  waiting :: "nat \<rightharpoonup> string \<times> nat"
  outcome :: "nat \<rightharpoonup> failure + diagnostic list"
  nextCall :: nat
  lspClient :: lsp_client

definition newDiagnosticsCache :: "lsp_client \<Rightarrow> diagnostics_cache" where
  "newDiagnosticsCache cl =
     \<lparr>cache = Map.empty, pendingWaits = Map.empty, waiting = Map.empty,
      outcome = Map.empty, nextCall = 0, lspClient = cl\<rparr>"

definition settle :: "nat \<Rightarrow> failure + diagnostic list \<Rightarrow> diagnostics_cache \<Rightarrow> diagnostics_cache" where
  \<comment> \<open>a promise settles once; a later resolve or reject of it changes nothing\<close>
  "settle c r s = (if outcome s c = None then s\<lparr>outcome := (outcome s)(c \<mapsto> r)\<rparr> else s)"

definition publishDiagnostics :: "string \<Rightarrow> diagnostic list \<Rightarrow> diagnostics_cache \<Rightarrow> diagnostics_cache" where
  \<comment> \<open>the handler of \<open>textDocument/publishDiagnostics\<close> registered by the constructor\<close>
  "publishDiagnostics uri diagnostics s =
     (let s1 = s\<lparr>cache := (cache s)(uri \<mapsto> diagnostics)\<rparr>
      in case pendingWaits s1 uri of
           None \<Rightarrow> s1
         | Some waiters \<Rightarrow>
             (let s2 = fold (\<lambda>resolve. settle resolve (Inr diagnostics)) waiters s1
              in s2\<lparr>pendingWaits := (pendingWaits s2)(uri := None)\<rparr>))"

definition waitForDiagnostics :: "nat \<Rightarrow> string \<Rightarrow> nat \<Rightarrow> diagnostics_cache \<Rightarrow> diagnostics_cache" where
  \<comment> \<open>the part of \<open>waitForDiagnostics\<close> that runs before it suspends in \<open>await withTimeout(...)\<close>\<close>
  "waitForDiagnostics c uri timeoutMs s =
     (case cache s uri of
        Some ds \<Rightarrow> settle c (Inr ds) s
      | None \<Rightarrow>
          (let waiters = (case pendingWaits s uri of None \<Rightarrow> [] | Some ws \<Rightarrow> ws) @ [c]
           in s\<lparr>pendingWaits := (pendingWaits s)(uri \<mapsto> waiters),
                waiting := (waiting s)(c \<mapsto> (uri, timeoutMs))\<rparr>))"

definition getDiagnostics :: "string \<Rightarrow> bool \<Rightarrow> diagnostics_cache \<Rightarrow> nat \<times> diagnostics_cache" where
  \<comment> \<open>returns the number of the call (its promise) and the state it leaves\<close>
  "getDiagnostics uri forceRefresh s =
     (let c = nextCall s;
          s0 = s\<lparr>nextCall := Suc c\<rparr>;
          s1 = (if forceRefresh then s0\<lparr>cache := (cache s0)(uri := None)\<rparr> else s0)
      in (c, case cache s1 uri of
               Some ds \<Rightarrow> settle c (Inr ds) s1
             | None \<Rightarrow> waitForDiagnostics c uri 5000 s1))"

text \<open>
  Modelled from the spec: \<open>withTimeout\<close> of utils/errors, which is not among the sources.
  The spec: "race an operation against a deadline producing a distinguishable timeout
  failure". The promise raced here is only ever resolved, so \<open>withTimeout\<close> rejects exactly
  when the deadline passes while the call is still pending, and it rejects with
  \<open>TimeoutError\<close> carrying the message it was given.
\<close>

definition withTimeout_rejection :: "string \<Rightarrow> failure" where
  "withTimeout_rejection uri = TimeoutError (''Timeout waiting for diagnostics for '' @ uri)"

definition catch_rejection :: "nat \<Rightarrow> string \<Rightarrow> failure \<Rightarrow> diagnostics_cache \<Rightarrow> diagnostics_cache" where
  \<comment> \<open>the \<open>catch\<close> block of \<open>waitForDiagnostics\<close> in call \<open>c\<close> on \<open>uri\<close>, entered with \<open>error\<close>\<close>
  "catch_rejection c uri err s =
     (let s1 = s\<lparr>pendingWaits := (pendingWaits s)(uri := None)\<rparr>
      in case err of
           TimeoutError msg \<Rightarrow> settle c (Inr []) s1
         | _ \<Rightarrow> settle c (Inl err) s1)"

definition deadlineElapsed :: "nat \<Rightarrow> diagnostics_cache \<Rightarrow> diagnostics_cache" where
  \<comment> \<open>the timer of call \<open>c\<close> fires: nothing happens unless \<open>c\<close> is suspended and still pending\<close>
  "deadlineElapsed c s =
     (case waiting s c of
        None \<Rightarrow> s
      | Some (uri, timeoutMs) \<Rightarrow>
          if outcome s c \<noteq> None then s
          else catch_rejection c uri (withTimeout_rejection uri) s)"

definition clearForFile :: "string \<Rightarrow> diagnostics_cache \<Rightarrow> diagnostics_cache" where
  "clearForFile uri s =
     s\<lparr>cache := (cache s)(uri := None), pendingWaits := (pendingWaits s)(uri := None)\<rparr>"

definition getCacheSize :: "diagnostics_cache \<Rightarrow> nat" where
  "getCacheSize s = card (dom (cache s))"

text \<open>What can happen to a cache, one event at a time, and runs of such events.\<close>

datatype cache_event =
    GetDiagnostics string bool
  | PublishDiagnostics string "diagnostic list"
  | DeadlineElapsed nat
  | ClearForFile string

fun cache_step :: "cache_event \<Rightarrow> diagnostics_cache \<Rightarrow> diagnostics_cache" where
  "cache_step (GetDiagnostics uri forceRefresh) s = snd (getDiagnostics uri forceRefresh s)"
| "cache_step (PublishDiagnostics uri ds) s = publishDiagnostics uri ds s"
| "cache_step (DeadlineElapsed c) s = deadlineElapsed c s"
| "cache_step (ClearForFile uri) s = clearForFile uri s"

definition cache_run :: "cache_event list \<Rightarrow> diagnostics_cache \<Rightarrow> diagnostics_cache" where
  "cache_run es s = fold cache_step es s"

definition waiters_of :: "diagnostics_cache \<Rightarrow> string \<Rightarrow> nat list" where
  "waiters_of s uri = (case pendingWaits s uri of None \<Rightarrow> [] | Some ws \<Rightarrow> ws)"

text \<open>
  An event leaves the waiter list of \<open>uri\<close> alone when it is not a push for \<open>uri\<close>, not
  \<open>clearForFile uri\<close> and not the deadline of a pending call that waits on \<open>uri\<close>.
\<close>

fun disturbs :: "string \<Rightarrow> diagnostics_cache \<Rightarrow> cache_event \<Rightarrow> bool" where
  "disturbs uri s (GetDiagnostics u forceRefresh) = False"
| "disturbs uri s (PublishDiagnostics u ds) = (u = uri)"
| "disturbs uri s (ClearForFile u) = (u = uri)"
| "disturbs uri s (DeadlineElapsed c) =
     (case waiting s c of None \<Rightarrow> False | Some (u, ms) \<Rightarrow> u = uri \<and> outcome s c = None)"

fun undisturbed :: "string \<Rightarrow> diagnostics_cache \<Rightarrow> cache_event list \<Rightarrow> bool" where
  "undisturbed uri s [] = True"
| "undisturbed uri s (e # es) = (\<not> disturbs uri s e \<and> undisturbed uri (cache_step e s) es)"

text \<open>The diagnostics of the first push for \<open>u\<close> among the events, if there is one.\<close>

fun first_push :: "string \<Rightarrow> cache_event list \<Rightarrow> diagnostic list option" where
  "first_push u [] = None"
| "first_push u (PublishDiagnostics u' ds # es) = (if u' = u then Some ds else first_push u es)"
| "first_push u (e # es) = first_push u es"

section \<open>The open-document tracker (file-tracker, known here through its tests)\<close>

text \<open>
  Modelled from the spec: the class \<open>FileTracker\<close> (src/file-tracker.ts), which is not among
  the sources; only its unit tests and its callers are. The definitions of this section
  follow section 4.4 of the specification, where \<open>ensureFileOpen\<close> is called \<open>ensureOpen\<close>,
  and the data model of an Open Document: path,
  derived URI, language identifier, version (1 at open) and a last-access timestamp for
  the LRU order. The timestamp is a logical clock that every successful \<open>ensureFileOpen\<close>
  advances. What the file system holds, how a path becomes a URI and which language a
  path has are parameters (\<open>file_env\<close>).
\<close>

record file_env =
  fileText :: "string \<rightharpoonup> string"
  pathToUri :: "string \<Rightarrow> string"
  languageIdOf :: "string \<Rightarrow> string"

record open_document =
  docPath :: string
  docUri :: string
  languageId :: string
  version :: nat
  lastAccess :: nat

datatype lsp_notification =
    DidOpen string string nat string
  | DidClose string

datatype tracker_error = FileNotFound string

record file_tracker =
  maxOpenFiles :: nat
  openFiles :: "open_document list"
  clock :: nat
  notified :: "lsp_notification list"
  fileClosedCallback :: "nat option"
  callbackCalls :: "(nat \<times> string) list"

definition newFileTracker :: "nat \<Rightarrow> file_tracker" where
  \<comment> \<open>Modelled from the spec: "Capacity: fixed maximum number of concurrently open
      documents (the source uses 100; a configurable constant)"; nothing is open and no callback is
      registered at first\<close>
  "newFileTracker capacity =
     \<lparr>maxOpenFiles = capacity, openFiles = [], clock = 0, notified = [],
      fileClosedCallback = None, callbackCalls = []\<rparr>"

definition lookupFile :: "string \<Rightarrow> file_tracker \<Rightarrow> open_document option" where
  \<comment> \<open>Modelled from the spec: "exactly one Open Document entry exists per distinct
      file"; the entry of a path\<close>
  "lookupFile p s = find (\<lambda>d. docPath d = p) (openFiles s)"

definition isFileOpen :: "file_tracker \<Rightarrow> string \<Rightarrow> bool" where
  \<comment> \<open>Modelled from the spec: "\<open>isFileOpen(path)\<close> ...: pure queries,
      no side effects"\<close>
  "isFileOpen s p = (lookupFile p s \<noteq> None)"

definition getOpenFiles :: "file_tracker \<Rightarrow> string set" where
  \<comment> \<open>Modelled from the spec: "\<open>getOpenFiles() -> set of URI\<close>: pure
      queries, no side effects"\<close>
  "getOpenFiles s = set (map docUri (openFiles s))"

definition onFileClosed :: "nat \<Rightarrow> file_tracker \<Rightarrow> file_tracker" where
  \<comment> \<open>Modelled from the spec: "registers a single callback ... Registering again
      replaces the previous callback (last registration wins)"; callbacks are told apart by a
      number\<close>
  "onFileClosed cb s = s\<lparr>fileClosedCallback := Some cb\<rparr>"

definition invokeCallback :: "string \<Rightarrow> file_tracker \<Rightarrow> file_tracker" where
  \<comment> \<open>Modelled from the spec: the registered callback, if there is one, is invoked
      "with the closed document's URI"; \<open>callbackCalls\<close> records the invocations in
      order\<close>
  "invokeCallback u s =
     (case fileClosedCallback s of
        None \<Rightarrow> s
      | Some cb \<Rightarrow> s\<lparr>callbackCalls := callbackCalls s @ [(cb, u)]\<rparr>)"

definition closeDocument :: "open_document \<Rightarrow> file_tracker \<Rightarrow> file_tracker" where
  \<comment> \<open>Modelled from the spec: "sends the close notification, removes the entry,
      and invokes the
      eviction/close callback exactly once"\<close>
  "closeDocument d s =
     invokeCallback (docUri d)
       (s\<lparr>notified := notified s @ [DidClose (docUri d)],
          openFiles := filter (\<lambda>x. docPath x \<noteq> docPath d) (openFiles s)\<rparr>)"

fun leastRecentlyUsed :: "open_document list \<Rightarrow> open_document option" where
  \<comment> \<open>Modelled from the spec: "the least-recently-used document", the entry with
      the least
      last-access timestamp (the earliest in the list among equal ones)\<close>
  "leastRecentlyUsed [] = None"
| "leastRecentlyUsed (d # ds) =
     (case leastRecentlyUsed ds of
        None \<Rightarrow> Some d
      | Some m \<Rightarrow> if lastAccess d \<le> lastAccess m then Some d else Some m)"

definition evictIfFull :: "file_tracker \<Rightarrow> file_tracker" where
  \<comment> \<open>Modelled from the spec: "If not tracked and at capacity, evicts the
      least-recently-used document first (sends its close notification, removes it, invokes the
      eviction callback with its URI)"\<close>
  "evictIfFull s =
     (if maxOpenFiles s \<le> length (openFiles s)
      then (case leastRecentlyUsed (openFiles s) of
              None \<Rightarrow> s
            | Some victim \<Rightarrow> closeDocument victim s)
      else s)"

definition touch :: "string \<Rightarrow> file_tracker \<Rightarrow> file_tracker" where
  \<comment> \<open>Modelled from the spec: "every successful \<open>ensureOpen\<close> call ...
      updates that document's
      position to most-recently-used"\<close>
  "touch p s =
     s\<lparr>openFiles := map (\<lambda>d. if docPath d = p then d\<lparr>lastAccess := clock s\<rparr> else d) (openFiles s),
       clock := Suc (clock s)\<rparr>"

definition ensureFileOpen :: "file_env \<Rightarrow> string \<Rightarrow> file_tracker \<Rightarrow> (tracker_error + string) \<times> file_tracker" where
  \<comment> \<open>Modelled from the spec: \<open>ensureOpen(path) -> uri\<close>, which the
      tests and callers name \<open>ensureFileOpen\<close>: "fails with a not-found error if the
      file does not exist on disk. If already tracked, updates recency and returns the cached URI
      without any protocol traffic ... If not tracked and at capacity, evicts the
      least-recently-used document first ... before opening the new one. Opening sends an open
      notification carrying the file's current on-disk content, a language identifier derived from
      the file extension ..., and an initial version number of 1"\<close>
  "ensureFileOpen env p s =
     (case fileText env p of
        None \<Rightarrow> (Inl (FileNotFound p), s)
      | Some text \<Rightarrow>
          (case lookupFile p s of
             Some d \<Rightarrow> (Inr (docUri d), touch p s)
           | None \<Rightarrow>
               (let s1 = evictIfFull s;
                    d = \<lparr>docPath = p, docUri = pathToUri env p, languageId = languageIdOf env p,
                         version = 1, lastAccess = clock s1\<rparr>
                in (Inr (docUri d),
                    s1\<lparr>notified := notified s1 @ [DidOpen (docUri d) (languageId d) (version d) text],
                       openFiles := openFiles s1 @ [d],
                       clock := Suc (clock s1)\<rparr>))))"

definition closeFile :: "string \<Rightarrow> file_tracker \<Rightarrow> file_tracker" where
  \<comment> \<open>Modelled from the spec: "no-op if not tracked; otherwise sends the close
      notification, removes the entry, and invokes the eviction/close callback exactly once"\<close>
  "closeFile p s = (case lookupFile p s of None \<Rightarrow> s | Some d \<Rightarrow> closeDocument d s)"

definition closeAll :: "file_tracker \<Rightarrow> file_tracker" where
  \<comment> \<open>Modelled from the spec: "closes every tracked document (order unspecified,
      but each triggers its own callback invocation), then clears tracking state entirely"\<close>
  "closeAll s = (fold closeDocument (openFiles s) s)\<lparr>openFiles := []\<rparr>"

datatype tracker_op =
    EnsureOpen string
  | CloseFile string
  | CloseAll
  | OnFileClosed nat

fun tracker_step :: "file_env \<Rightarrow> tracker_op \<Rightarrow> file_tracker \<Rightarrow> file_tracker" where
  "tracker_step env (EnsureOpen p) s = snd (ensureFileOpen env p s)"
| "tracker_step env (CloseFile p) s = closeFile p s"
| "tracker_step env CloseAll s = closeAll s"
| "tracker_step env (OnFileClosed cb) s = onFileClosed cb s"

definition tracker_run :: "file_env \<Rightarrow> tracker_op list \<Rightarrow> file_tracker \<Rightarrow> file_tracker" where
  "tracker_run env ops s = fold (tracker_step env) ops s"

definition didOpens :: "lsp_notification list \<Rightarrow> lsp_notification list" where
  "didOpens ns = filter (\<lambda>n. case n of DidOpen u l v t \<Rightarrow> True | DidClose u \<Rightarrow> False) ns"

text \<open>
  What holds of every cache that events have produced: a call whose resolve function is in
  a waiter list is pending and suspended on that URI with the bound of 5000 ms, calls not
  yet made have no trace in the state, and no call has settled with a failure.
\<close>

definition cache_inv :: "diagnostics_cache \<Rightarrow> bool" where
  "cache_inv s \<longleftrightarrow>
     (\<forall>u ws c. pendingWaits s u = Some ws \<longrightarrow> c \<in> set ws \<longrightarrow>
        outcome s c = None \<and> waiting s c = Some (u, 5000))
   \<and> (\<forall>c. nextCall s \<le> c \<longrightarrow> outcome s c = None \<and> waiting s c = None)
   \<and> (\<forall>c e. outcome s c \<noteq> Some (Inl e))"

text \<open>A call that has been made and whose resolve function is in no waiter list.\<close>

definition unlisted :: "diagnostics_cache \<Rightarrow> nat \<Rightarrow> bool" where
  "unlisted s c \<longleftrightarrow> c < nextCall s \<and> (\<forall>u ws. pendingWaits s u = Some ws \<longrightarrow> c \<notin> set ws)"


section \<open>Concrete inputs\<close>

text \<open>
  The objects the unit tests use: a hierarchy item, a second candidate, an incoming call,
  a position, and a client whose first three requests get the given outcomes.
\<close>

definition demo_item :: json where
  "demo_item = JObj [(''name'', JStr ''TestFunction''), (''kind'', JNum 12)]"


definition demo_caller :: json where
  "demo_caller = JObj [(''from'', JObj [(''name'', JStr ''caller'')]), (''fromRanges'', JArr [])]"

definition demo_pos :: position where
  "demo_pos = \<lparr>line = 10, character = 5\<rparr>"

definition demo_client :: "(failure + json) \<Rightarrow> (failure + json) \<Rightarrow> (failure + json) \<Rightarrow> lsp_client" where
  "demo_client r1 r2 r3 =
     \<lparr>sent = [], answer = (\<lambda>n req. if n = 1 then r1 else if n = 2 then r2 else r3)\<rparr>"

text \<open>Two document URIs, two diagnostics and a client, for the diagnostics cache.\<close>

definition demo_uri :: string where
  "demo_uri = ''file:///test.cpp''"

definition demo_other_uri :: string where
  "demo_other_uri = ''file:///other.cpp''"

definition demo_diag :: diagnostic where
  "demo_diag = JObj [(''severity'', JNum 1), (''message'', JStr ''use of undeclared identifier'')]"

definition demo_old_diag :: diagnostic where
  "demo_old_diag = JObj [(''severity'', JNum 2), (''message'', JStr ''unused variable'')]"

definition demo_lsp :: lsp_client where
  "demo_lsp = \<lparr>sent = [], answer = (\<lambda>n req. Inr JNull)\<rparr>"

text \<open>A file system with three source files, for the tracker.\<close>

definition demo_env :: file_env where
  "demo_env =
     \<lparr>fileText = (\<lambda>p. if p \<in> set [''/src/a.cpp'', ''/src/b.cpp'', ''/src/c.cpp'']
                       then Some ''int x;'' else None),
      pathToUri = (\<lambda>p. ''file://'' @ p),
      languageIdOf = (\<lambda>p. ''cpp'')\<rparr>"


section \<open>Properties of the two-phase hierarchy fetch\<close>

text \<open>
  Claim C6. When the prepare request resolves to \<open>null\<close> or to an empty array, the fetch
  resolves (it does not reject) to the "not found" value \<open>null\<close>, here \<open>Inr None\<close>, and the
  only request written is the prepare request: no relation request is issued.
\<close>

theorem prepare_empty_is_not_found:
  assumes "answer cl (Suc (length (sent cl))) (prepareMethod, prepareParams u pos) = Inr items"
      and "items = JNull \<or> items = JArr []"
  shows "fetchTwoPhaseHierarchy cl prepareMethod incomingMethod outgoingMethod u pos
           = (Inr None, cl\<lparr>sent := sent cl @ [(prepareMethod, prepareParams u pos)]\<rparr>)"
  using assms by (auto simp: fetchTwoPhaseHierarchy_def request_def)

theorem prepare_empty_is_not_found_witness:
  "fetchTwoPhaseHierarchy (demo_client (Inr (JArr [])) (Inr (JArr [demo_caller])) (Inr (JArr [])))
      ''textDocument/prepareCallHierarchy'' ''callHierarchy/incomingCalls''
      ''callHierarchy/outgoingCalls'' ''file:///test.cpp'' demo_pos
   = (Inr None,
      (demo_client (Inr (JArr [])) (Inr (JArr [demo_caller])) (Inr (JArr [])))
        \<lparr>sent := [(''textDocument/prepareCallHierarchy'', prepareParams ''file:///test.cpp'' demo_pos)]\<rparr>)"
  using prepare_empty_is_not_found
          [of "demo_client (Inr (JArr [])) (Inr (JArr [demo_caller])) (Inr (JArr []))"
              "''textDocument/prepareCallHierarchy''" "''file:///test.cpp''" demo_pos "JArr []"
              "''callHierarchy/incomingCalls''" "''callHierarchy/outgoingCalls''"]
  by (simp add: demo_client_def)



text \<open>
  Claim C2. Let the prepare phase give a usable anchor \<open>it\<close>, and let \<open>r_in\<close> and \<open>r_out\<close> be
  the outcomes of the two relation requests. If the incoming request fails with any
  failure \<open>e\<close> while the outgoing one succeeds with the collection \<open>ys\<close>, the fetch still
  resolves: \<open>incoming\<close> is the empty array and \<open>outgoing\<close> is \<open>ys\<close> itself. The same holds
  with the two sides exchanged.
\<close>

theorem one_relation_failure_keeps_other_side:
  assumes prep: "answer cl (Suc (length (sent cl))) (prepareMethod, prepareParams u pos) = Inr items"
      and usable: "truthy items" "items \<noteq> JArr []"
      and it: "it = (if isArray items then elems items ! 0 else items)"
      and r_in: "r_in = answer cl (Suc (Suc (length (sent cl)))) (incomingMethod, itemParams it)"
      and r_out: "r_out = answer cl (Suc (Suc (Suc (length (sent cl))))) (outgoingMethod, itemParams it)"
  shows "(r_in = Inl e \<and> r_out = Inr (JArr ys) \<longrightarrow>
            fst (fetchTwoPhaseHierarchy cl prepareMethod incomingMethod outgoingMethod u pos)
              = Inr (Some \<lparr>item = it, incoming = JArr [], outgoing = JArr ys\<rparr>))
       \<and> (r_in = Inr (JArr xs) \<and> r_out = Inl e \<longrightarrow>
            fst (fetchTwoPhaseHierarchy cl prepareMethod incomingMethod outgoingMethod u pos)
              = Inr (Some \<lparr>item = it, incoming = JArr xs, outgoing = JArr []\<rparr>))"
proof -
  have empty: "\<not> (isArray items \<and> length (elems items) = 0)"
    using usable by (cases items) auto
  show ?thesis
    using prep usable empty it r_in r_out
    by (auto simp: fetchTwoPhaseHierarchy_def request_def Let_def catch_null_def or_js_def)
qed


theorem one_relation_failure_keeps_other_side_witness:
  "fst (fetchTwoPhaseHierarchy
          (demo_client (Inr demo_item) (Inl (RemoteError (-32603) ''Internal error'')) (Inr (JArr [demo_caller])))
          ''textDocument/prepareCallHierarchy'' ''callHierarchy/incomingCalls''
          ''callHierarchy/outgoingCalls'' ''file:///test.cpp'' demo_pos)
     = Inr (Some \<lparr>item = demo_item, incoming = JArr [], outgoing = JArr [demo_caller]\<rparr>)"
  using one_relation_failure_keeps_other_side
          [of "demo_client (Inr demo_item) (Inl (RemoteError (-32603) ''Internal error'')) (Inr (JArr [demo_caller]))"
              "''textDocument/prepareCallHierarchy''" "''file:///test.cpp''" demo_pos demo_item demo_item
              "Inl (RemoteError (-32603) ''Internal error'')" "''callHierarchy/incomingCalls''"
              "Inr (JArr [demo_caller])" "''callHierarchy/outgoingCalls''"
              "RemoteError (-32603) ''Internal error''" "[demo_caller]"]
  by (simp add: demo_client_def demo_item_def)





section \<open>Properties of the diagnostics cache\<close>

subsection \<open>Settling promises\<close>

lemma settle_fields [simp]:
  "cache (settle c r s) = cache s"
  "pendingWaits (settle c r s) = pendingWaits s"
  "waiting (settle c r s) = waiting s"
  "nextCall (settle c r s) = nextCall s"
  "lspClient (settle c r s) = lspClient s"
  by (simp_all add: settle_def)

lemma outcome_settle:
  "outcome (settle c r s) c' = (if c' = c \<and> outcome s c = None then Some r else outcome s c')"
  by (simp add: settle_def)

lemma fold_settle_fields [simp]:
  "cache (fold (\<lambda>c. settle c r) ws s) = cache s"
  "pendingWaits (fold (\<lambda>c. settle c r) ws s) = pendingWaits s"
  "waiting (fold (\<lambda>c. settle c r) ws s) = waiting s"
  "nextCall (fold (\<lambda>c. settle c r) ws s) = nextCall s"
  "lspClient (fold (\<lambda>c. settle c r) ws s) = lspClient s"
  by (induction ws arbitrary: s; simp)+

lemma outcome_fold_settle:
  "outcome (fold (\<lambda>c. settle c r) ws s) c' =
     (if c' \<in> set ws \<and> outcome s c' = None then Some r else outcome s c')"
  by (induction ws arbitrary: s) (auto simp: outcome_settle)

subsection \<open>The invariant holds of every reachable cache\<close>

lemma cache_inv_new: "cache_inv (newDiagnosticsCache cl)"
  by (simp add: cache_inv_def newDiagnosticsCache_def)

lemma inv_waiter_pending:
  "cache_inv s \<Longrightarrow> pendingWaits s u = Some ws \<Longrightarrow> c \<in> set ws \<Longrightarrow> outcome s c = None"
  by (simp add: cache_inv_def)

lemma inv_waiter_waiting:
  "cache_inv s \<Longrightarrow> pendingWaits s u = Some ws \<Longrightarrow> c \<in> set ws \<Longrightarrow> waiting s c = Some (u, 5000)"
  by (simp add: cache_inv_def)

lemma inv_fresh:
  "cache_inv s \<Longrightarrow> nextCall s \<le> c \<Longrightarrow> outcome s c = None \<and> waiting s c = None"
  by (simp add: cache_inv_def)

lemma inv_no_failure: "cache_inv s \<Longrightarrow> outcome s c \<noteq> Some (Inl e)"
  by (simp add: cache_inv_def)

lemma inv_waiter_lt:
  assumes "cache_inv s" "pendingWaits s u = Some ws" "c \<in> set ws"
  shows "c < nextCall s"
proof (rule ccontr)
  assume "\<not> c < nextCall s"
  then have "waiting s c = None" using inv_fresh[OF assms(1), of c] by simp
  then show False using inv_waiter_waiting[OF assms] by simp
qed

lemma inv_waiter_unique:
  assumes "cache_inv s" "pendingWaits s u = Some ws" "c \<in> set ws"
      and "pendingWaits s u' = Some ws'" "c \<in> set ws'"
  shows "u' = u"
  using inv_waiter_waiting[OF assms(1,2,3)] inv_waiter_waiting[OF assms(1,4,5)] by simp

lemma cache_invI:
  assumes "\<And>u ws c. pendingWaits s u = Some ws \<Longrightarrow> c \<in> set ws \<Longrightarrow> outcome s c = None"
      and "\<And>u ws c. pendingWaits s u = Some ws \<Longrightarrow> c \<in> set ws \<Longrightarrow> waiting s c = Some (u, 5000)"
      and "\<And>c. nextCall s \<le> c \<Longrightarrow> outcome s c = None \<and> waiting s c = None"
      and "\<And>c e. outcome s c \<noteq> Some (Inl e)"
  shows "cache_inv s"
  using assms unfolding cache_inv_def by blast

lemma cache_inv_settle_fresh:
  assumes inv: "cache_inv s" and "\<And>u ws. pendingWaits s u = Some ws \<Longrightarrow> c \<notin> set ws"
      and "c < nextCall s"
  shows "cache_inv (settle c (Inr ds) s)"
proof (rule cache_invI)
  fix u ws c' assume "pendingWaits (settle c (Inr ds) s) u = Some ws" "c' \<in> set ws"
  then have w: "pendingWaits s u = Some ws" "c' \<in> set ws" by simp_all
  then have "c' \<noteq> c" using assms(2) by blast
  then show "outcome (settle c (Inr ds) s) c' = None"
    using inv_waiter_pending[OF inv w] by (simp add: outcome_settle)
  show "waiting (settle c (Inr ds) s) c' = Some (u, 5000)"
    using inv_waiter_waiting[OF inv w] by simp
next
  fix c' assume "nextCall (settle c (Inr ds) s) \<le> c'"
  then show "outcome (settle c (Inr ds) s) c' = None \<and> waiting (settle c (Inr ds) s) c' = None"
    using inv_fresh[OF inv, of c'] assms(3) by (simp add: outcome_settle)
next
  fix c' e show "outcome (settle c (Inr ds) s) c' \<noteq> Some (Inl e)"
    using inv_no_failure[OF inv] by (simp add: outcome_settle)
qed

lemma cache_inv_bump:
  assumes inv: "cache_inv s"
  shows "cache_inv (s\<lparr>nextCall := Suc (nextCall s)\<rparr>)"
  using inv unfolding cache_inv_def by auto

lemma cache_inv_cache_update:
  assumes inv: "cache_inv s"
  shows "cache_inv (s\<lparr>cache := m\<rparr>)"
  using inv unfolding cache_inv_def by auto

lemma cache_inv_drop_waiters:
  assumes inv: "cache_inv s"
  shows "cache_inv (s\<lparr>pendingWaits := (pendingWaits s)(u := None)\<rparr>)"
  using inv unfolding cache_inv_def by (auto split: if_splits)

lemma cache_inv_register:
  assumes inv: "cache_inv s" and c: "outcome s c = None" "waiting s c = None" "c < nextCall s"
  shows "cache_inv (s\<lparr>pendingWaits := (pendingWaits s)(u \<mapsto> waiters_of s u @ [c]),
                         waiting := (waiting s)(c \<mapsto> (u, 5000))\<rparr>)"
    (is "cache_inv ?t")
proof (rule cache_invI)
  fix u' ws c' assume h: "pendingWaits ?t u' = Some ws" "c' \<in> set ws"
  have old: "outcome s c' = None \<and> waiting s c' = Some (u'', 5000)"
    if "pendingWaits s u'' = Some ws'" "c' \<in> set ws'" for u'' ws'
    using inv_waiter_pending[OF inv that] inv_waiter_waiting[OF inv that] by simp
  show "outcome ?t c' = None"
    using h c old by (auto simp: waiters_of_def split: if_splits option.splits)
  show "waiting ?t c' = Some (u', 5000)"
    using h c old by (auto simp: waiters_of_def split: if_splits option.splits)
next
  fix c' assume "nextCall ?t \<le> c'"
  then show "outcome ?t c' = None \<and> waiting ?t c' = None"
    using inv_fresh[OF inv, of c'] c by auto
next
  fix c' e show "outcome ?t c' \<noteq> Some (Inl e)"
    using inv_no_failure[OF inv] by simp
qed

lemma waitForDiagnostics_alt:
  "waitForDiagnostics c u ms s =
     (case cache s u of
        Some ds \<Rightarrow> settle c (Inr ds) s
      | None \<Rightarrow> s\<lparr>pendingWaits := (pendingWaits s)(u \<mapsto> waiters_of s u @ [c]),
                   waiting := (waiting s)(c \<mapsto> (u, ms))\<rparr>)"
  by (simp add: waitForDiagnostics_def waiters_of_def Let_def split: option.splits)

lemma cache_inv_getDiagnostics:
  assumes inv: "cache_inv s"
  shows "cache_inv (snd (getDiagnostics u fr s))"
proof -
  define s0 where "s0 = s\<lparr>nextCall := Suc (nextCall s)\<rparr>"
  define s1 where "s1 = (if fr then s0\<lparr>cache := (cache s0)(u := None)\<rparr> else s0)"
  let ?c = "nextCall s"
  have inv1: "cache_inv s1"
    unfolding s1_def s0_def using cache_inv_bump[OF inv] cache_inv_cache_update by simp
  have fresh: "outcome s1 ?c = None" "waiting s1 ?c = None" "?c < nextCall s1"
    using inv_fresh[OF inv, of ?c] by (simp_all add: s1_def s0_def)
  have notin: "?c \<notin> set ws" if "pendingWaits s1 u' = Some ws" for u' ws
    using inv_waiter_waiting[OF inv1 that, of ?c] fresh by auto
  have eq: "snd (getDiagnostics u fr s) =
           (case cache s1 u of Some ds \<Rightarrow> settle ?c (Inr ds) s1
            | None \<Rightarrow> waitForDiagnostics ?c u 5000 s1)"
    by (simp add: getDiagnostics_def Let_def s1_def s0_def split: option.splits)
  show ?thesis
  proof (cases "cache s1 u")
    case None
    then show ?thesis
      using eq cache_inv_register[OF inv1 fresh, of u] by (simp add: waitForDiagnostics_alt)
  next
    case (Some ds)
    then show ?thesis
      using eq cache_inv_settle_fresh[OF inv1 notin fresh(3)] by simp
  qed
qed

lemma cache_inv_publish:
  assumes inv: "cache_inv s"
  shows "cache_inv (publishDiagnostics u ds s)"
proof (cases "pendingWaits s u")
  case None
  then show ?thesis
    using cache_inv_cache_update[OF inv] by (simp add: publishDiagnostics_def)
next
  case (Some waiters)
  define s1 where "s1 = s\<lparr>cache := (cache s)(u \<mapsto> ds)\<rparr>"
  define s2 where "s2 = fold (\<lambda>resolve. settle resolve (Inr ds)) waiters s1"
  have eq: "publishDiagnostics u ds s = s2\<lparr>pendingWaits := (pendingWaits s2)(u := None)\<rparr>"
    using Some by (simp add: publishDiagnostics_def s1_def s2_def)
  show ?thesis
    unfolding eq
  proof (rule cache_invI)
    fix u' ws c
    assume h: "pendingWaits (s2\<lparr>pendingWaits := (pendingWaits s2)(u := None)\<rparr>) u' = Some ws"
              "c \<in> set ws"
    then have ne: "u' \<noteq> u" and w: "pendingWaits s u' = Some ws"
      by (auto simp: s2_def s1_def split: if_splits)
    have "c \<notin> set waiters"
      using inv_waiter_unique[OF inv Some _ w h(2)] ne by blast
    then show "outcome (s2\<lparr>pendingWaits := (pendingWaits s2)(u := None)\<rparr>) c = None"
      using inv_waiter_pending[OF inv w h(2)] by (simp add: s2_def s1_def outcome_fold_settle)
    show "waiting (s2\<lparr>pendingWaits := (pendingWaits s2)(u := None)\<rparr>) c = Some (u', 5000)"
      using inv_waiter_waiting[OF inv w h(2)] by (simp add: s2_def s1_def)
  next
    fix c assume "nextCall (s2\<lparr>pendingWaits := (pendingWaits s2)(u := None)\<rparr>) \<le> c"
    then have le: "nextCall s \<le> c" by (simp add: s2_def s1_def)
    then have "c \<notin> set waiters" using inv_waiter_lt[OF inv Some, of c] by auto
    then show "outcome (s2\<lparr>pendingWaits := (pendingWaits s2)(u := None)\<rparr>) c = None
             \<and> waiting (s2\<lparr>pendingWaits := (pendingWaits s2)(u := None)\<rparr>) c = None"
      using inv_fresh[OF inv le] by (simp add: s2_def s1_def outcome_fold_settle)
  next
    fix c e show "outcome (s2\<lparr>pendingWaits := (pendingWaits s2)(u := None)\<rparr>) c \<noteq> Some (Inl e)"
      using inv_no_failure[OF inv, of c e] by (simp add: s2_def s1_def outcome_fold_settle)
  qed
qed

lemma deadlineElapsed_alt:
  "deadlineElapsed c s =
     (case waiting s c of
        None \<Rightarrow> s
      | Some (u, ms) \<Rightarrow>
          if outcome s c \<noteq> None then s
          else settle c (Inr []) (s\<lparr>pendingWaits := (pendingWaits s)(u := None)\<rparr>))"
  by (simp add: deadlineElapsed_def catch_rejection_def withTimeout_rejection_def Let_def
           split: option.splits)

lemma cache_inv_deadline:
  assumes inv: "cache_inv s"
  shows "cache_inv (deadlineElapsed c s)"
proof (cases "waiting s c")
  case None
  then show ?thesis using inv by (simp add: deadlineElapsed_alt)
next
  case (Some w)
  obtain u ms where w: "w = (u, ms)" by (cases w)
  show ?thesis
  proof (cases "outcome s c")
    case (Some r)
    then show ?thesis using inv \<open>waiting s c = Some w\<close> w by (simp add: deadlineElapsed_alt)
  next
    case None
    let ?s1 = "s\<lparr>pendingWaits := (pendingWaits s)(u := None)\<rparr>"
    have inv1: "cache_inv ?s1" by (rule cache_inv_drop_waiters[OF inv])
    have lt: "c < nextCall ?s1"
      using inv_fresh[OF inv, of c] \<open>waiting s c = Some w\<close> by (cases "c < nextCall s") auto
    have notin: "c \<notin> set ws" if "pendingWaits ?s1 u' = Some ws" for u' ws
    proof
      assume "c \<in> set ws"
      from that have "u' \<noteq> u" and "pendingWaits s u' = Some ws" by (auto split: if_splits)
      with inv_waiter_waiting[OF inv this(2) \<open>c \<in> set ws\<close>] \<open>waiting s c = Some w\<close> w
      show False by simp
    qed
    show ?thesis
      using cache_inv_settle_fresh[OF inv1 notin lt] None \<open>waiting s c = Some w\<close> w
      by (simp add: deadlineElapsed_alt)
  qed
qed

lemma cache_inv_clear:
  assumes inv: "cache_inv s"
  shows "cache_inv (clearForFile u s)"
  using cache_inv_drop_waiters[OF cache_inv_cache_update[OF inv], of "(cache s)(u := None)" u]
  by (simp add: clearForFile_def)

lemma cache_inv_step: "cache_inv s \<Longrightarrow> cache_inv (cache_step e s)"
  by (cases e) (simp_all add: cache_inv_getDiagnostics cache_inv_publish cache_inv_deadline cache_inv_clear)

lemma cache_inv_run: "cache_inv s \<Longrightarrow> cache_inv (cache_run es s)"
  unfolding cache_run_def
  by (induction es arbitrary: s) (simp_all add: cache_inv_step)


subsection \<open>Runs, waiters and pushes\<close>

lemma cache_run_simps [simp]:
  "cache_run [] s = s"
  "cache_run (e # es) s = cache_run es (cache_step e s)"
  "cache_run (xs @ ys) s = cache_run ys (cache_run xs s)"
  by (simp_all add: cache_run_def)

lemma lspClient_step [simp]: "lspClient (cache_step e s) = lspClient s"
  by (cases e)
     (auto simp: getDiagnostics_def waitForDiagnostics_alt publishDiagnostics_def
                 deadlineElapsed_alt clearForFile_def Let_def
           split: option.splits)

lemma lspClient_run [simp]: "lspClient (cache_run es s) = lspClient s"
  by (induction es arbitrary: s) simp_all

lemma reachable_inv: "cache_inv (cache_run es (newDiagnosticsCache cl))"
  by (simp add: cache_inv_run cache_inv_new)

text \<open>A call that finds no entry after the optional eviction becomes a waiter.\<close>

lemma getDiagnostics_registers:
  assumes "fr \<or> cache s u = None"
  shows "fst (getDiagnostics u fr s) = nextCall s"
    and "nextCall s \<in> set (waiters_of (snd (getDiagnostics u fr s)) u)"
    and "cache (snd (getDiagnostics u fr s)) u = None"
    and "waiting (snd (getDiagnostics u fr s)) (nextCall s) = Some (u, 5000)"
    and "outcome (snd (getDiagnostics u fr s)) = outcome s"
  using assms
  by (auto simp: getDiagnostics_def waitForDiagnostics_alt waiters_of_def Let_def)

text \<open>Events that do not disturb \<open>u\<close> only add to its waiter list and keep its cache entry absent.\<close>

lemma step_keeps_waiter:
  assumes "c \<in> set (waiters_of s u)" "\<not> disturbs u s e"
  shows "c \<in> set (waiters_of (cache_step e s) u)"
proof (cases e)
  case (GetDiagnostics u' fr)
  then show ?thesis
    using assms
    by (auto simp: getDiagnostics_def waitForDiagnostics_alt waiters_of_def Let_def
                   settle_def split: option.splits)
next
  case (PublishDiagnostics u' ds)
  then show ?thesis
    using assms
    by (auto simp: publishDiagnostics_def waiters_of_def Let_def split: option.splits)
next
  case (DeadlineElapsed c')
  then show ?thesis
    using assms
    by (auto simp: deadlineElapsed_alt waiters_of_def settle_def split: option.splits)
next
  case (ClearForFile u')
  then show ?thesis
    using assms by (auto simp: clearForFile_def waiters_of_def split: option.splits)
qed

lemma run_keeps_waiter:
  "c \<in> set (waiters_of s u) \<Longrightarrow> undisturbed u s es \<Longrightarrow> c \<in> set (waiters_of (cache_run es s) u)"
  by (induction es arbitrary: s) (auto simp: step_keeps_waiter)

text \<open>A push settles every waiter of its URI with the pushed value and removes the list.\<close>

lemma publish_resolves_waiter:
  assumes "cache_inv s" "c \<in> set (waiters_of s u)"
  shows "outcome (publishDiagnostics u ds s) c = Some (Inr ds)"
proof -
  obtain ws where ws: "pendingWaits s u = Some ws" "c \<in> set ws"
    using assms(2) by (cases "pendingWaits s u") (auto simp: waiters_of_def)
  have "outcome s c = None" by (rule inv_waiter_pending[OF assms(1) ws])
  then show ?thesis
    using ws by (simp add: publishDiagnostics_def outcome_fold_settle)
qed

lemma publish_removes_waiters: "pendingWaits (publishDiagnostics u ds s) u = None"
  by (cases "pendingWaits s u") (simp_all add: publishDiagnostics_def Let_def)

text \<open>A suspended, pending call stays so until a push for its URI or its own deadline.\<close>

lemma step_keeps_pending:
  assumes inv: "cache_inv s"
      and w: "waiting s c = Some (u, ms)" and o: "outcome s c = None"
      and e: "\<forall>ds. e \<noteq> PublishDiagnostics u ds" "e \<noteq> DeadlineElapsed c"
  shows "waiting (cache_step e s) c = Some (u, ms) \<and> outcome (cache_step e s) c = None"
proof (cases e)
  case (GetDiagnostics u' fr)
  have "c \<noteq> nextCall s" using inv_fresh[OF inv, of c] w by auto
  then show ?thesis
    using GetDiagnostics w o
    by (auto simp: getDiagnostics_def waitForDiagnostics_alt Let_def outcome_settle
             split: option.splits)
next
  case (PublishDiagnostics u' ds)
  then have ne: "u' \<noteq> u" using e(1) by auto
  have "c \<notin> set ws" if "pendingWaits s u' = Some ws" for ws
    using inv_waiter_waiting[OF inv that, of c] w ne by auto
  then show ?thesis
    using PublishDiagnostics w o
    by (cases "pendingWaits s u'") (auto simp: publishDiagnostics_def Let_def outcome_fold_settle)
next
  case (DeadlineElapsed c')
  then have "c' \<noteq> c" using e(2) by auto
  then show ?thesis
    using DeadlineElapsed w o
    by (auto simp: deadlineElapsed_alt outcome_settle split: option.splits)
next
  case (ClearForFile u')
  then show ?thesis using w o by (simp add: clearForFile_def)
qed

lemma run_keeps_pending:
  assumes "cache_inv s" "waiting s c = Some (u, ms)" "outcome s c = None"
      and "\<forall>ds. PublishDiagnostics u ds \<notin> set es" "DeadlineElapsed c \<notin> set es"
  shows "waiting (cache_run es s) c = Some (u, ms) \<and> outcome (cache_run es s) c = None"
  using assms
proof (induction es arbitrary: s)
  case Nil
  then show ?case by simp
next
  case (Cons e es)
  have "waiting (cache_step e s) c = Some (u, ms) \<and> outcome (cache_step e s) c = None"
    using step_keeps_pending[OF Cons.prems(1,2,3), of e] Cons.prems(4,5) by auto
  moreover have "cache_inv (cache_step e s)" by (rule cache_inv_step[OF Cons.prems(1)])
  ultimately show ?case using Cons.IH[of "cache_step e s"] Cons.prems(4,5) by simp
qed

lemma deadline_of_pending:
  assumes "waiting s c = Some (u, ms)" "outcome s c = None"
  shows "outcome (deadlineElapsed c s) c = Some (Inr [])"
    and "pendingWaits (deadlineElapsed c s) u = None"
  using assms by (simp_all add: deadlineElapsed_alt outcome_settle)

lemmas cache_eval =
  getDiagnostics_def waitForDiagnostics_def publishDiagnostics_def
  deadlineElapsed_def catch_rejection_def withTimeout_rejection_def clearForFile_def
  settle_def newDiagnosticsCache_def waiters_of_def Let_def
  demo_uri_def demo_other_uri_def demo_lsp_def

subsection \<open>Concurrent waiters and the next push\<close>

text \<open>
  Claim C1, as the code has it. In every cache that events have produced, the callers whose
  resolve functions are in the waiter list of \<open>u\<close> are all pending, and one push for \<open>u\<close>
  settles every one of them with the pushed diagnostics and removes the list. The cache
  never writes a request: neither a call of \<open>getDiagnostics\<close> nor the push changes what was
  sent to the server. A call that finds no entry for \<open>u\<close> after the optional eviction enters
  the list, and a caller in the list stays there through all events except a push for \<open>u\<close>,
  \<open>clearForFile\<close> for \<open>u\<close> and the elapsed deadline of a pending call that waits on \<open>u\<close>.
\<close>

theorem push_resolves_every_waiter:
  assumes reach: "s = cache_run es0 (newDiagnosticsCache cl)"
  shows "(\<forall>c\<in>set (waiters_of s u).
            outcome s c = None \<and> outcome (publishDiagnostics u ds s) c = Some (Inr ds))
       \<and> pendingWaits (publishDiagnostics u ds s) u = None
       \<and> sent (lspClient (publishDiagnostics u ds s)) = sent cl
       \<and> (\<forall>fr. fr \<or> cache s u = None \<longrightarrow>
             nextCall s \<in> set (waiters_of (snd (getDiagnostics u fr s)) u)
           \<and> sent (lspClient (snd (getDiagnostics u fr s))) = sent cl)
       \<and> (\<forall>c es. c \<in> set (waiters_of s u) \<and> undisturbed u s es \<longrightarrow>
             c \<in> set (waiters_of (cache_run es s) u))"
proof -
  have inv: "cache_inv s" unfolding reach by (rule reachable_inv)
  have client: "sent (lspClient s) = sent cl"
    by (simp add: reach newDiagnosticsCache_def)
  have resolved: "outcome s c = None \<and> outcome (publishDiagnostics u ds s) c = Some (Inr ds)"
    if "c \<in> set (waiters_of s u)" for c
    using that publish_resolves_waiter[OF inv] inv_waiter_pending[OF inv]
    by (cases "pendingWaits s u") (auto simp: waiters_of_def)
  have removed: "pendingWaits (publishDiagnostics u ds s) u = None"
    by (rule publish_removes_waiters)
  have quiet_push: "sent (lspClient (publishDiagnostics u ds s)) = sent cl"
    using lspClient_step[of "PublishDiagnostics u ds" s] client by simp
  have registers: "nextCall s \<in> set (waiters_of (snd (getDiagnostics u fr s)) u)
                 \<and> sent (lspClient (snd (getDiagnostics u fr s))) = sent cl"
    if "fr \<or> cache s u = None" for fr
    using getDiagnostics_registers(2)[OF that] lspClient_step[of "GetDiagnostics u fr" s] client
    by simp
  have stays: "c \<in> set (waiters_of (cache_run es s) u)"
    if "c \<in> set (waiters_of s u) \<and> undisturbed u s es" for c es
    using that run_keeps_waiter by blast
  show ?thesis
    using resolved removed quiet_push registers stays by blast
qed

theorem push_resolves_every_waiter_witness:
  "outcome (cache_run [GetDiagnostics demo_uri False, GetDiagnostics demo_uri True,
                       GetDiagnostics demo_uri False, PublishDiagnostics demo_uri [demo_diag]]
              (newDiagnosticsCache demo_lsp)) 0 = Some (Inr [demo_diag])
 \<and> outcome (cache_run [GetDiagnostics demo_uri False, GetDiagnostics demo_uri True,
                       GetDiagnostics demo_uri False, PublishDiagnostics demo_uri [demo_diag]]
              (newDiagnosticsCache demo_lsp)) 1 = Some (Inr [demo_diag])
 \<and> outcome (cache_run [GetDiagnostics demo_uri False, GetDiagnostics demo_uri True,
                       GetDiagnostics demo_uri False, PublishDiagnostics demo_uri [demo_diag]]
              (newDiagnosticsCache demo_lsp)) 2 = Some (Inr [demo_diag])
 \<and> pendingWaits (cache_run [GetDiagnostics demo_uri False, GetDiagnostics demo_uri True,
                       GetDiagnostics demo_uri False, PublishDiagnostics demo_uri [demo_diag]]
              (newDiagnosticsCache demo_lsp)) demo_uri = None
 \<and> sent (lspClient (cache_run [GetDiagnostics demo_uri False, GetDiagnostics demo_uri True,
                       GetDiagnostics demo_uri False, PublishDiagnostics demo_uri [demo_diag]]
              (newDiagnosticsCache demo_lsp))) = []"
proof -
  define S where
    "S = cache_run [GetDiagnostics demo_uri False, GetDiagnostics demo_uri True,
                    GetDiagnostics demo_uri False] (newDiagnosticsCache demo_lsp)"
  have w: "waiters_of S demo_uri = [0, 1, 2]"
    by (simp add: S_def cache_eval)
  have "outcome (publishDiagnostics demo_uri [demo_diag] S) 0 = Some (Inr [demo_diag])
      \<and> outcome (publishDiagnostics demo_uri [demo_diag] S) 1 = Some (Inr [demo_diag])
      \<and> outcome (publishDiagnostics demo_uri [demo_diag] S) 2 = Some (Inr [demo_diag])
      \<and> pendingWaits (publishDiagnostics demo_uri [demo_diag] S) demo_uri = None
      \<and> sent (lspClient (publishDiagnostics demo_uri [demo_diag] S)) = []"
    using push_resolves_every_waiter[OF S_def, of demo_uri "[demo_diag]"]
    by (simp add: w demo_lsp_def)
  then show ?thesis by (simp add: S_def)
qed

text \<open>
  The condition that the waiter is still in the list is needed. \<open>clearForFile\<close>, which runs
  when the tracker closes or evicts the document, deletes the waiter list while the callers
  stay suspended: two callers wait on the URI, the list is cleared, and the push that
  follows settles neither of them. The elapsed deadline of one waiting call deletes the list
  for the other callers in the same way.
\<close>

theorem concurrent_waiters_counterexample:
  "waiting (cache_run [GetDiagnostics demo_uri False, GetDiagnostics demo_uri False,
                       ClearForFile demo_uri] (newDiagnosticsCache demo_lsp)) 0
     = Some (demo_uri, 5000)
 \<and> waiting (cache_run [GetDiagnostics demo_uri False, GetDiagnostics demo_uri False,
                       ClearForFile demo_uri] (newDiagnosticsCache demo_lsp)) 1
     = Some (demo_uri, 5000)
 \<and> outcome (cache_run [GetDiagnostics demo_uri False, GetDiagnostics demo_uri False,
                       ClearForFile demo_uri] (newDiagnosticsCache demo_lsp)) 0 = None
 \<and> outcome (cache_run [GetDiagnostics demo_uri False, GetDiagnostics demo_uri False,
                       ClearForFile demo_uri] (newDiagnosticsCache demo_lsp)) 1 = None
 \<and> outcome (cache_run [GetDiagnostics demo_uri False, GetDiagnostics demo_uri False,
                       ClearForFile demo_uri, PublishDiagnostics demo_uri [demo_diag]]
              (newDiagnosticsCache demo_lsp)) 0 = None
 \<and> outcome (cache_run [GetDiagnostics demo_uri False, GetDiagnostics demo_uri False,
                       ClearForFile demo_uri, PublishDiagnostics demo_uri [demo_diag]]
              (newDiagnosticsCache demo_lsp)) 1 = None"
  by (simp add: cache_eval)

subsection \<open>The bounded wait\<close>

text \<open>
  Claim C3. A call of \<open>getDiagnostics\<close> that finds no entry after the optional eviction
  suspends with the bound of 5000 ms. Whatever else happens meanwhile, as long as no push
  for its URI arrives before its deadline, the call is still pending when the deadline
  passes, and then it settles with the empty sequence, the waiter list of the URI is
  deleted, and no call of the cache has settled with a failure.
\<close>

theorem no_push_within_bound_gives_empty:
  assumes reach: "s = cache_run es0 (newDiagnosticsCache cl)"
      and miss: "forceRefresh \<or> cache s u = None"
      and call: "getDiagnostics u forceRefresh s = (c, s1)"
      and nopush: "\<forall>ds. PublishDiagnostics u ds \<notin> set es"
      and timer: "DeadlineElapsed c \<notin> set es"
      and s2: "s2 = cache_run (es @ [DeadlineElapsed c]) s1"
  shows "waiting s1 c = Some (u, 5000)
       \<and> outcome (cache_run es s1) c = None
       \<and> outcome s2 c = Some (Inr [])
       \<and> pendingWaits s2 u = None
       \<and> (\<forall>c' e. outcome s2 c' \<noteq> Some (Inl e))"
proof -
  have inv: "cache_inv s" unfolding reach by (rule reachable_inv)
  have c: "c = nextCall s" and s1: "s1 = snd (getDiagnostics u forceRefresh s)"
    using call getDiagnostics_registers(1)[OF miss] by auto
  have inv1: "cache_inv s1" unfolding s1 by (rule cache_inv_getDiagnostics[OF inv])
  have w1: "waiting s1 c = Some (u, 5000)"
    unfolding s1 c by (rule getDiagnostics_registers(4)[OF miss])
  have o1: "outcome s1 c = None"
    using getDiagnostics_registers(5)[OF miss] inv_fresh[OF inv, of c] by (simp add: s1 c)
  have p: "waiting (cache_run es s1) c = Some (u, 5000) \<and> outcome (cache_run es s1) c = None"
    by (rule run_keeps_pending[OF inv1 w1 o1 nopush timer])
  have "cache_inv s2"
    unfolding s2 by (rule cache_inv_run[OF inv1])
  then have nofail: "\<forall>c' e. outcome s2 c' \<noteq> Some (Inl e)"
    using inv_no_failure by blast
  show ?thesis
    using w1 p deadline_of_pending[of "cache_run es s1" c u 5000] nofail
    by (simp add: s2)
qed

theorem no_push_within_bound_gives_empty_witness:
  "waiting (snd (getDiagnostics demo_uri True
                  (cache_run [PublishDiagnostics demo_uri [demo_old_diag]]
                     (newDiagnosticsCache demo_lsp)))) 0 = Some (demo_uri, 5000)
 \<and> outcome (cache_run [GetDiagnostics demo_other_uri False,
                       PublishDiagnostics demo_other_uri [demo_diag],
                       DeadlineElapsed 0]
              (snd (getDiagnostics demo_uri True
                     (cache_run [PublishDiagnostics demo_uri [demo_old_diag]]
                        (newDiagnosticsCache demo_lsp))))) 0 = Some (Inr [])
 \<and> pendingWaits (cache_run [GetDiagnostics demo_other_uri False,
                       PublishDiagnostics demo_other_uri [demo_diag],
                       DeadlineElapsed 0]
              (snd (getDiagnostics demo_uri True
                     (cache_run [PublishDiagnostics demo_uri [demo_old_diag]]
                        (newDiagnosticsCache demo_lsp))))) demo_uri = None"
proof -
  let ?s = "cache_run [PublishDiagnostics demo_uri [demo_old_diag]] (newDiagnosticsCache demo_lsp)"
  let ?es = "[GetDiagnostics demo_other_uri False, PublishDiagnostics demo_other_uri [demo_diag]]"
  have call: "getDiagnostics demo_uri True ?s = (0, snd (getDiagnostics demo_uri True ?s))"
    by (simp add: cache_eval)
  have nopush: "\<forall>ds. PublishDiagnostics demo_uri ds \<notin> set ?es"
    by (simp add: demo_uri_def demo_other_uri_def)
  have timer: "DeadlineElapsed 0 \<notin> set ?es" by simp
  show ?thesis
    using no_push_within_bound_gives_empty
            [where ?es0.0 = "[PublishDiagnostics demo_uri [demo_old_diag]]" and cl = demo_lsp,
             OF refl _ call nopush timer refl]
    by simp
qed

subsection \<open>Forced refresh\<close>

text \<open>A settled promise keeps its value.\<close>

lemma step_keeps_outcome:
  assumes "outcome s c = Some r"
  shows "outcome (cache_step e s) c = Some r"
  using assms
  by (cases e)
     (auto simp: getDiagnostics_def waitForDiagnostics_alt publishDiagnostics_def Let_def
                 deadlineElapsed_alt clearForFile_def outcome_settle outcome_fold_settle
           split: option.splits)

lemma run_keeps_outcome:
  "outcome s c = Some r \<Longrightarrow> outcome (cache_run es s) c = Some r"
  by (induction es arbitrary: s) (simp_all add: step_keeps_outcome)

text \<open>
  A call that is in no waiter list is never put into one again, and the only way it can
  still settle is with the empty sequence at its deadline.
\<close>

lemma step_unlisted:
  assumes un: "unlisted s c"
  shows "unlisted (cache_step e s) c"
    and "outcome (cache_step e s) c = outcome s c \<or> outcome (cache_step e s) c = Some (Inr [])"
proof -
  have lt: "c < nextCall s" and out: "\<And>u ws. pendingWaits s u = Some ws \<Longrightarrow> c \<notin> set ws"
    using un by (auto simp: unlisted_def)
  show "unlisted (cache_step e s) c"
  proof (cases e)
    case (GetDiagnostics u' fr)
    then show ?thesis
      using lt out
      by (auto simp: unlisted_def getDiagnostics_def waitForDiagnostics_alt waiters_of_def Let_def
               split: option.splits if_splits)
  next
    case (PublishDiagnostics u' ds)
    then show ?thesis
      using lt out
      by (cases "pendingWaits s u'")
         (auto simp: unlisted_def publishDiagnostics_def Let_def split: if_splits)
  next
    case (DeadlineElapsed c')
    then show ?thesis
      using lt out
      by (auto simp: unlisted_def deadlineElapsed_alt split: option.splits if_splits)
  next
    case (ClearForFile u')
    then show ?thesis
      using lt out by (auto simp: unlisted_def clearForFile_def split: if_splits)
  qed
  show "outcome (cache_step e s) c = outcome s c \<or> outcome (cache_step e s) c = Some (Inr [])"
  proof (cases e)
    case (GetDiagnostics u' fr)
    then show ?thesis
      using lt
      by (auto simp: getDiagnostics_def waitForDiagnostics_alt Let_def outcome_settle
               split: option.splits)
  next
    case (PublishDiagnostics u' ds)
    then show ?thesis
      using out
      by (cases "pendingWaits s u'")
         (auto simp: publishDiagnostics_def Let_def outcome_fold_settle)
  next
    case (DeadlineElapsed c')
    then show ?thesis
      by (auto simp: deadlineElapsed_alt outcome_settle split: option.splits)
  next
    case (ClearForFile u')
    then show ?thesis by (simp add: clearForFile_def)
  qed
qed

lemma run_unlisted:
  assumes "unlisted s c" "outcome s c = None \<or> outcome s c = Some (Inr [])"
  shows "outcome (cache_run es s) c = None \<or> outcome (cache_run es s) c = Some (Inr [])"
  using assms
proof (induction es arbitrary: s)
  case Nil
  then show ?case by simp
next
  case (Cons e es)
  have "unlisted (cache_step e s) c" by (rule step_unlisted(1)[OF Cons.prems(1)])
  moreover have "outcome (cache_step e s) c = None \<or> outcome (cache_step e s) c = Some (Inr [])"
    using step_unlisted(2)[OF Cons.prems(1), of e] Cons.prems(2) by auto
  ultimately show ?case using Cons.IH by simp
qed

text \<open>Until the first push for its URI a waiter stays listed, or is dropped for good.\<close>

lemma step_listed:
  assumes inv: "cache_inv s" and reg: "c \<in> set (waiters_of s u)"
      and e: "\<forall>ds. e \<noteq> PublishDiagnostics u ds"
  shows "c \<in> set (waiters_of (cache_step e s) u)
       \<or> (unlisted (cache_step e s) c
          \<and> (outcome (cache_step e s) c = None \<or> outcome (cache_step e s) c = Some (Inr [])))"
proof (cases "disturbs u s e")
  case False
  then show ?thesis using step_keeps_waiter[OF reg] by simp
next
  case True
  obtain ws where ws: "pendingWaits s u = Some ws" "c \<in> set ws"
    using reg by (cases "pendingWaits s u") (auto simp: waiters_of_def)
  have pend: "outcome s c = None" by (rule inv_waiter_pending[OF inv ws])
  have lt: "c < nextCall s" by (rule inv_waiter_lt[OF inv ws])
  have only: "u' = u" if "pendingWaits s u' = Some ws'" "c \<in> set ws'" for u' ws'
    by (rule inv_waiter_unique[OF inv ws that])
  have dropped: "unlisted (s\<lparr>pendingWaits := (pendingWaits s)(u := None)\<rparr>) c"
    using lt only by (auto simp: unlisted_def)
  show ?thesis
  proof (cases e)
    case (GetDiagnostics u' fr)
    then show ?thesis using True by simp
  next
    case (PublishDiagnostics u' ds)
    then show ?thesis using e True by simp
  next
    case (ClearForFile u')
    then have "u' = u" using True by simp
    then show ?thesis
      using ClearForFile lt only pend by (auto simp: unlisted_def clearForFile_def)
  next
    case (DeadlineElapsed c')
    then obtain ms where w: "waiting s c' = Some (u, ms)" "outcome s c' = None"
      using True by (auto split: option.splits)
    have "unlisted (deadlineElapsed c' s) c"
      using w lt only by (auto simp: unlisted_def deadlineElapsed_alt)
    moreover have "outcome (deadlineElapsed c' s) c = None
                 \<or> outcome (deadlineElapsed c' s) c = Some (Inr [])"
      using w pend by (auto simp: deadlineElapsed_alt outcome_settle)
    ultimately show ?thesis using DeadlineElapsed by simp
  qed
qed

lemma first_push_skip:
  "\<forall>ds. e \<noteq> PublishDiagnostics u ds \<Longrightarrow> first_push u (e # es) = first_push u es"
  by (cases e) auto

lemma waiter_outcome_is_first_push:
  assumes "cache_inv s" "c \<in> set (waiters_of s u)"
  shows "outcome (cache_run es s) c = None
       \<or> outcome (cache_run es s) c = Some (Inr [])
       \<or> (\<exists>ds. first_push u es = Some ds \<and> outcome (cache_run es s) c = Some (Inr ds))"
  using assms
proof (induction es arbitrary: s)
  case Nil
  then show ?case
    using inv_waiter_pending[OF Nil(1)]
    by (cases "pendingWaits s u") (auto simp: waiters_of_def)
next
  case (Cons e es)
  have inv': "cache_inv (cache_step e s)" by (rule cache_inv_step[OF Cons.prems(1)])
  show ?case
  proof (cases "\<exists>ds. e = PublishDiagnostics u ds")
    case True
    then obtain ds where e: "e = PublishDiagnostics u ds" by blast
    have "outcome (cache_step e s) c = Some (Inr ds)"
      using publish_resolves_waiter[OF Cons.prems] e by simp
    then have "outcome (cache_run (e # es) s) c = Some (Inr ds)"
      using run_keeps_outcome by simp
    then show ?thesis using e by simp
  next
    case False
    then have ne: "\<forall>ds. e \<noteq> PublishDiagnostics u ds" by blast
    from step_listed[OF Cons.prems ne] show ?thesis
    proof
      assume "c \<in> set (waiters_of (cache_step e s) u)"
      then show ?thesis
        using Cons.IH[OF inv'] first_push_skip[OF ne] by simp
    next
      assume "unlisted (cache_step e s) c
          \<and> (outcome (cache_step e s) c = None \<or> outcome (cache_step e s) c = Some (Inr []))"
      then show ?thesis
        using run_unlisted[of "cache_step e s" c es] by auto
    qed
  qed
qed


text \<open>
  Claim C5, as the code has it. A call \<open>getDiagnostics(u, true)\<close> leaves no cache entry for
  \<open>u\<close>, returns nothing at once, not even when an entry was cached, and is registered as a
  waiter on \<open>u\<close>. Whenever a later push for \<open>u\<close> finds it in the waiter list, the call is
  pending until then and settles with exactly the pushed diagnostics; it stays in the list
  through all events that leave the list of \<open>u\<close> alone. Whatever happens, the call never
  yields the value that was cached before: it is pending, or it has settled with the empty
  sequence at its deadline, or with the diagnostics of the first push for \<open>u\<close> after the call.
\<close>

theorem forced_refresh_is_fresh:
  assumes reach: "s = cache_run es0 (newDiagnosticsCache cl)"
      and call: "getDiagnostics u True s = (c, s1)"
  shows "cache s1 u = None
       \<and> outcome s1 c = None
       \<and> c \<in> set (waiters_of s1 u)
       \<and> (\<forall>es ds. c \<in> set (waiters_of (cache_run es s1) u) \<longrightarrow>
             outcome (cache_run es s1) c = None
           \<and> outcome (cache_run (es @ [PublishDiagnostics u ds]) s1) c = Some (Inr ds))
       \<and> (\<forall>es. undisturbed u s1 es \<longrightarrow> c \<in> set (waiters_of (cache_run es s1) u))
       \<and> (\<forall>es. outcome (cache_run es s1) c = None
              \<or> outcome (cache_run es s1) c = Some (Inr [])
              \<or> (\<exists>ds. first_push u es = Some ds \<and> outcome (cache_run es s1) c = Some (Inr ds)))"
proof -
  have inv: "cache_inv s" unfolding reach by (rule reachable_inv)
  have c: "c = nextCall s" and s1: "s1 = snd (getDiagnostics u True s)"
    using call getDiagnostics_registers(1)[of True s u] by auto
  have inv1: "cache_inv s1" unfolding s1 by (rule cache_inv_getDiagnostics[OF inv])
  have reg: "c \<in> set (waiters_of s1 u)"
    unfolding s1 c using getDiagnostics_registers(2)[of True s u] by simp
  have o1: "outcome s1 c = None"
    using getDiagnostics_registers(5)[of True s u] inv_fresh[OF inv, of c] by (simp add: s1 c)
  have evicted: "cache s1 u = None"
    unfolding s1 using getDiagnostics_registers(3)[of True s u] by simp
  have push: "outcome (cache_run es s1) c = None
            \<and> outcome (cache_run (es @ [PublishDiagnostics u ds]) s1) c = Some (Inr ds)"
    if regt: "c \<in> set (waiters_of (cache_run es s1) u)" for es ds
  proof -
    have invt: "cache_inv (cache_run es s1)" by (rule cache_inv_run[OF inv1])
    have "outcome (cache_run es s1) c = None"
      using regt inv_waiter_pending[OF invt]
      by (cases "pendingWaits (cache_run es s1) u") (auto simp: waiters_of_def)
    then show ?thesis using publish_resolves_waiter[OF invt regt] by simp
  qed
  have stays: "c \<in> set (waiters_of (cache_run es s1) u)" if "undisturbed u s1 es" for es
    by (rule run_keeps_waiter[OF reg that])
  have fresh: "outcome (cache_run es s1) c = None
             \<or> outcome (cache_run es s1) c = Some (Inr [])
             \<or> (\<exists>ds. first_push u es = Some ds \<and> outcome (cache_run es s1) c = Some (Inr ds))"
    for es
    by (rule waiter_outcome_is_first_push[OF inv1 reg])
  show ?thesis
    using evicted o1 reg push stays fresh by blast
qed


theorem forced_refresh_is_fresh_witness:
  "cache (snd (getDiagnostics demo_uri True
                 (cache_run [PublishDiagnostics demo_uri [demo_old_diag]]
                    (newDiagnosticsCache demo_lsp)))) demo_uri = None
 \<and> outcome (snd (getDiagnostics demo_uri True
                 (cache_run [PublishDiagnostics demo_uri [demo_old_diag]]
                    (newDiagnosticsCache demo_lsp)))) 0 = None
 \<and> outcome (cache_run [GetDiagnostics demo_uri False, PublishDiagnostics demo_uri [demo_diag]]
              (snd (getDiagnostics demo_uri True
                     (cache_run [PublishDiagnostics demo_uri [demo_old_diag]]
                        (newDiagnosticsCache demo_lsp))))) 0 = Some (Inr [demo_diag])"
proof -
  define S where
    "S = cache_run [PublishDiagnostics demo_uri [demo_old_diag]] (newDiagnosticsCache demo_lsp)"
  define S1 where "S1 = snd (getDiagnostics demo_uri True S)"
  have call: "getDiagnostics demo_uri True S = (0, S1)"
    by (simp add: S1_def S_def cache_eval)
  have q: "undisturbed demo_uri S1 [GetDiagnostics demo_uri False]" by simp
  have "cache S1 demo_uri = None \<and> outcome S1 0 = None
      \<and> outcome (cache_run ([GetDiagnostics demo_uri False] @ [PublishDiagnostics demo_uri [demo_diag]]) S1) 0
          = Some (Inr [demo_diag])"
    using forced_refresh_is_fresh[OF S_def call] q by blast
  then show ?thesis by (simp add: S1_def S_def)
qed

text \<open>
  A fresh push can pass the forced call by: after \<open>clearForFile\<close> the call is still
  suspended but no longer in the waiter list, the fresh push does not settle it, and at its
  deadline it returns the empty sequence instead of the pushed diagnostics.
\<close>

theorem forced_refresh_counterexample:
  "cache (cache_run [PublishDiagnostics demo_uri [demo_old_diag]]
            (newDiagnosticsCache demo_lsp)) demo_uri = Some [demo_old_diag]
 \<and> outcome (cache_run [PublishDiagnostics demo_uri [demo_old_diag],
                       GetDiagnostics demo_uri True,
                       ClearForFile demo_uri,
                       PublishDiagnostics demo_uri [demo_diag]]
              (newDiagnosticsCache demo_lsp)) 0 = None
 \<and> outcome (cache_run [PublishDiagnostics demo_uri [demo_old_diag],
                       GetDiagnostics demo_uri True,
                       ClearForFile demo_uri,
                       PublishDiagnostics demo_uri [demo_diag],
                       DeadlineElapsed 0]
              (newDiagnosticsCache demo_lsp)) 0 = Some (Inr [])"
  by (simp add: cache_eval)



section \<open>Properties of the open-document tracker\<close>

subsection \<open>Lookup, eviction and the invariant\<close>

lemma tracker_run_simps [simp]:
  "tracker_run env [] s = s"
  "tracker_run env (x # xs) s = tracker_run env xs (tracker_step env x s)"
  "tracker_run env (xs @ ys) s = tracker_run env ys (tracker_run env xs s)"
  by (simp_all add: tracker_run_def)


lemma lookupFile_Some:
  "lookupFile p s = Some d \<Longrightarrow> d \<in> set (openFiles s) \<and> docPath d = p"
  by (auto simp: lookupFile_def find_Some_iff)





lemma invokeCallback_fields [simp]:
  "openFiles (invokeCallback u s) = openFiles s"
  "notified (invokeCallback u s) = notified s"
  "clock (invokeCallback u s) = clock s"
  "maxOpenFiles (invokeCallback u s) = maxOpenFiles s"
  "fileClosedCallback (invokeCallback u s) = fileClosedCallback s"
  "callbackCalls (invokeCallback u s) =
     callbackCalls s @ (case fileClosedCallback s of None \<Rightarrow> [] | Some cb \<Rightarrow> [(cb, u)])"
  by (simp_all add: invokeCallback_def split: option.splits)

lemma closeDocument_fields [simp]:
  "openFiles (closeDocument d s) = filter (\<lambda>x. docPath x \<noteq> docPath d) (openFiles s)"
  "notified (closeDocument d s) = notified s @ [DidClose (docUri d)]"
  "clock (closeDocument d s) = clock s"
  "maxOpenFiles (closeDocument d s) = maxOpenFiles s"
  "fileClosedCallback (closeDocument d s) = fileClosedCallback s"
  "callbackCalls (closeDocument d s) =
     callbackCalls s @ (case fileClosedCallback s of None \<Rightarrow> [] | Some cb \<Rightarrow> [(cb, docUri d)])"
  by (simp_all add: closeDocument_def)

lemma fold_closeDocument_fields [simp]:
  "clock (fold closeDocument ds s) = clock s"
  "maxOpenFiles (fold closeDocument ds s) = maxOpenFiles s"
  by (induction ds arbitrary: s) simp_all










lemma evictIfFull_fields [simp]:
  "clock (evictIfFull s) = clock s"
  "maxOpenFiles (evictIfFull s) = maxOpenFiles s"
  "fileClosedCallback (evictIfFull s) = fileClosedCallback s"
  by (simp_all add: evictIfFull_def split: option.splits)








lemma maxOpenFiles_step [simp]: "maxOpenFiles (tracker_step env x s) = maxOpenFiles s"
proof (cases x)
  case (EnsureOpen p)
  then show ?thesis
    by (auto simp: ensureFileOpen_def touch_def Let_def split: option.splits)
next
  case (CloseFile p)
  then show ?thesis by (simp add: closeFile_def split: option.splits)
next
  case CloseAll
  then show ?thesis by (simp add: closeAll_def)
next
  case (OnFileClosed cb)
  then show ?thesis by (simp add: onFileClosed_def)
qed

lemma maxOpenFiles_run [simp]: "maxOpenFiles (tracker_run env xs s) = maxOpenFiles s"
  by (induction xs arbitrary: s) simp_all

lemmas tracker_eval =
  ensureFileOpen_def lookupFile_def evictIfFull_def closeDocument_def invokeCallback_def
  touch_def closeFile_def closeAll_def onFileClosed_def newFileTracker_def isFileOpen_def
  didOpens_def demo_env_def Let_def




subsection \<open>Capacity and least-recently-used eviction\<close>




subsection \<open>Closing a file\<close>

text \<open>
  Claim C9. For a path that is not tracked \<open>closeFile\<close> returns the tracker unchanged: no
  notification, no callback, the same entries. For a tracked path it writes exactly the
  close notification of its document, removes the entry so that the path is no longer
  open, and invokes the registered callback exactly once, with the document's URI.
\<close>

theorem closeFile_untracked_noop_tracked_closes:
  "(\<not> isFileOpen s p \<longrightarrow> closeFile p s = s)
 \<and> (\<forall>d. lookupFile p s = Some d \<longrightarrow>
        isFileOpen s p
      \<and> notified (closeFile p s) = notified s @ [DidClose (docUri d)]
      \<and> openFiles (closeFile p s) = filter (\<lambda>x. docPath x \<noteq> p) (openFiles s)
      \<and> \<not> isFileOpen (closeFile p s) p
      \<and> callbackCalls (closeFile p s) =
          callbackCalls s @ (case fileClosedCallback s of None \<Rightarrow> [] | Some cb \<Rightarrow> [(cb, docUri d)]))"
proof (intro conjI allI impI)
  assume "\<not> isFileOpen s p"
  then show "closeFile p s = s" by (simp add: isFileOpen_def closeFile_def)
next
  fix d assume d: "lookupFile p s = Some d"
  then have path: "docPath d = p" using lookupFile_Some by blast
  show "isFileOpen s p" using d by (simp add: isFileOpen_def)
  show "notified (closeFile p s) = notified s @ [DidClose (docUri d)]"
    using d by (simp add: closeFile_def)
  show files: "openFiles (closeFile p s) = filter (\<lambda>x. docPath x \<noteq> p) (openFiles s)"
    using d path by (simp add: closeFile_def)
  show "\<not> isFileOpen (closeFile p s) p"
    unfolding isFileOpen_def lookupFile_def files by (simp add: find_None_iff)
  show "callbackCalls (closeFile p s) =
          callbackCalls s @ (case fileClosedCallback s of None \<Rightarrow> [] | Some cb \<Rightarrow> [(cb, docUri d)])"
    using d by (simp add: closeFile_def)
qed

theorem closeFile_untracked_noop_tracked_closes_witness:
  "closeFile ''/src/b.cpp''
     (tracker_run demo_env [OnFileClosed 7, EnsureOpen ''/src/a.cpp''] (newFileTracker 100))
   = tracker_run demo_env [OnFileClosed 7, EnsureOpen ''/src/a.cpp''] (newFileTracker 100)
 \<and> notified (closeFile ''/src/a.cpp''
      (tracker_run demo_env [OnFileClosed 7, EnsureOpen ''/src/a.cpp''] (newFileTracker 100)))
   = [DidOpen ''file:///src/a.cpp'' ''cpp'' 1 ''int x;'', DidClose ''file:///src/a.cpp'']
 \<and> openFiles (closeFile ''/src/a.cpp''
      (tracker_run demo_env [OnFileClosed 7, EnsureOpen ''/src/a.cpp''] (newFileTracker 100)))
   = []
 \<and> callbackCalls (closeFile ''/src/a.cpp''
      (tracker_run demo_env [OnFileClosed 7, EnsureOpen ''/src/a.cpp''] (newFileTracker 100)))
   = [(7, ''file:///src/a.cpp'')]"
proof -
  define S where
    "S = tracker_run demo_env [OnFileClosed 7, EnsureOpen ''/src/a.cpp''] (newFileTracker 100)"
  have un: "\<not> isFileOpen S ''/src/b.cpp''" by (simp add: S_def tracker_eval)
  have tr: "lookupFile ''/src/a.cpp'' S =
              Some \<lparr>docPath = ''/src/a.cpp'', docUri = ''file:///src/a.cpp'', languageId = ''cpp'',
                    version = 1, lastAccess = 0\<rparr>"
    by (simp add: S_def tracker_eval)
  have fs: "openFiles S =
              [\<lparr>docPath = ''/src/a.cpp'', docUri = ''file:///src/a.cpp'', languageId = ''cpp'',
                version = 1, lastAccess = 0\<rparr>]"
       "notified S = [DidOpen ''file:///src/a.cpp'' ''cpp'' 1 ''int x;'']"
       "callbackCalls S = []" "fileClosedCallback S = Some 7"
    by (simp_all add: S_def tracker_eval)
  have "closeFile ''/src/b.cpp'' S = S
      \<and> notified (closeFile ''/src/a.cpp'' S)
          = [DidOpen ''file:///src/a.cpp'' ''cpp'' 1 ''int x;'', DidClose ''file:///src/a.cpp'']
      \<and> openFiles (closeFile ''/src/a.cpp'' S) = []
      \<and> callbackCalls (closeFile ''/src/a.cpp'' S) = [(7, ''file:///src/a.cpp'')]"
    using closeFile_untracked_noop_tracked_closes[of S "''/src/b.cpp''"] un
          closeFile_untracked_noop_tracked_closes[of S "''/src/a.cpp''"] tr
    by (simp add: fs)
  then show ?thesis unfolding S_def .
qed



subsection \<open>Opening a file twice\<close>






end
